theory Spec2Isabelle
  imports Complex_Main
begin

section \<open>Batched CRF layer (python/baseline/pytorch/crf.py)\<close>

text \<open>
  Tensors are nested lists with the layout the source documents: an emission tensor
  \<open>[T, B, N]\<close> is a list of \<open>T\<close> time steps, each a list of \<open>B\<close> rows of \<open>N\<close>
  scores; the transition tensor \<open>[1, N, N]\<close> is kept without its leading singleton axis, so
  \<open>tr ! i ! j\<close> is the score of moving into tag \<open>i\<close> from tag \<open>j\<close>.  Scores are real
  numbers, lengths and indices are Python integers.  Shapes are the typing discipline of the
  tensors; failures that depend on values (an index out of range, a reduction over no
  element) are results of the model.
\<close>

datatype error = IndexError | RuntimeError

type_synonym vec = "real list"
type_synonym mat = "real list list"
type_synonym tensor3 = "real list list list"

subsection \<open>Tensor primitives\<close>

text \<open>Indexing one axis of size \<open>n\<close> with a Python integer: negative indices count from the end.\<close>

definition py_index :: "nat \<Rightarrow> int \<Rightarrow> nat option" where
  "py_index n i =
     (if 0 \<le> i \<and> i < int n then Some (nat i)
      else if - int n \<le> i \<and> i < 0 then Some (nat (int n + i))
      else None)"

text \<open>\<open>gather\<close> accepts only indices in \<open>[0, n)\<close>.\<close>

definition gather_index :: "nat \<Rightarrow> int \<Rightarrow> nat option" where
  "gather_index n i = (if 0 \<le> i \<and> i < int n then Some (nat i) else None)"

text \<open>\<open>path[:length]\<close> on a sequence.\<close>

definition slice_to :: "'a list \<Rightarrow> int \<Rightarrow> 'a list" where
  "slice_to xs l = (if l < 0 then take (nat (int (length xs) + l)) xs else take (nat l) xs)"

text \<open>
  \<open>torch.max\<close> along one axis: the largest value and its index; among equal candidates the
  lowest index is returned.  It is only ever applied to the tag axis, which is not empty once
  the start index has been accepted.
\<close>

fun torch_max :: "real list \<Rightarrow> real \<times> nat" where
  "torch_max [] = (0, 0)"
| "torch_max [x] = (x, 0)"
| "torch_max (x # xs) = (let (m, k) = torch_max xs in if x < m then (m, Suc k) else (x, 0))"

text \<open>\<open>x.masked_fill(mask, v)\<close> with a mask of one entry per batch row, broadcast over the row.\<close>

definition masked_fill :: "'a list list \<Rightarrow> bool list \<Rightarrow> 'a \<Rightarrow> 'a list list" where
  "masked_fill xs msk v = map2 (\<lambda>row m. if m then map (\<lambda>_. v) row else row) xs msk"

text \<open>\<open>x.masked_fill(mask, v)\<close> on a vector with one mask entry per element.\<close>

definition masked_fill1 :: "'a list \<Rightarrow> bool list \<Rightarrow> 'a \<Rightarrow> 'a list" where
  "masked_fill1 xs msk v = map2 (\<lambda>x m. if m then v else x) xs msk"

text \<open>\<open>p.masked_fill(mask, v)\<close> on a matrix with an elementwise mask.\<close>

definition masked_fill2 :: "'a list list \<Rightarrow> bool list list \<Rightarrow> 'a \<Rightarrow> 'a list list" where
  "masked_fill2 xs msk v = map2 (\<lambda>row mrow. masked_fill1 row mrow v) xs msk"

text \<open>Swapping the two leading axes of a tensor.\<close>

definition transpose01 :: "'a list list \<Rightarrow> 'a list list" where
  "transpose01 xs = (case xs of [] \<Rightarrow> [] | r # _ \<Rightarrow> map (\<lambda>j. map (\<lambda>row. row ! j) xs) [0..<length r])"

subsection \<open>Viterbi decoding\<close>

text \<open>
  The variable-length blend of both recursions:
  \<open>alphas.masked_fill(mask, 0) + new_alphas.masked_fill(mask == 0, 0)\<close> with
  \<open>mask = (i < lengths)\<close>.
\<close>

definition blend :: "int list \<Rightarrow> nat \<Rightarrow> real list list \<Rightarrow> real list list \<Rightarrow> real list list" where
  "blend lengths i alphas new_alphas =
     (let msk = map (\<lambda>l. int i < l) lengths
      in map2 (map2 (+)) (masked_fill alphas msk 0) (masked_fill new_alphas (map Not msk) 0))"

text \<open>The initial score vector of one batch row: \<open>-1e4\<close> everywhere, \<open>0\<close> at the start tag.\<close>

definition init_alpha :: "nat \<Rightarrow> nat \<Rightarrow> vec" where
  "init_alpha n s = (replicate n (- 10000)) [s := 0]"

definition log_softmax :: "vec \<Rightarrow> vec" where
  "log_softmax xs = map (\<lambda>x. x - ln (\<Sum>y\<leftarrow>xs. exp y)) xs"

text \<open>
  The forward loop of \<open>viterbi\<close>, \<open>for i, unary_t in enumerate(unary)\<close>, on the state
  \<open>(alphas, backpointers)\<close>.
\<close>

fun viterbi_loop ::
  "mat \<Rightarrow> int list \<Rightarrow> int \<Rightarrow> nat \<Rightarrow> tensor3 \<Rightarrow> real list list \<times> nat list list list
     \<Rightarrow> real list list \<times> nat list list list" where
  "viterbi_loop tr lengths min_length i [] st = st"
| "viterbi_loop tr lengths min_length i (unary_t # rest) (alphas, backpointers) =
     (let next_tag_var = map (\<lambda>a. map (\<lambda>row. map2 (+) a row) tr) alphas;
          mx = map (map torch_max) next_tag_var;
          vit = map (map fst) mx;
          best_tag_ids = map (map snd) mx;
          new_alphas = map2 (map2 (+)) vit unary_t;
          alphas' = (if min_length \<le> int i then blend lengths i alphas new_alphas
                     else new_alphas)
      in viterbi_loop tr lengths min_length (Suc i) rest
           (alphas', backpointers @ [best_tag_ids]))"

text \<open>
  The backward loop, \<open>for i, backpointer_t in enumerate(reversed(backpointers))\<close>, on the
  state \<open>(best_tag_id, best_path)\<close>.
\<close>

fun backtrack ::
  "int list \<Rightarrow> nat \<Rightarrow> nat list list list \<Rightarrow> nat list \<times> nat list list \<Rightarrow> nat list list" where
  "backtrack rev_len i [] (best_tag_id, best_path) = best_path"
| "backtrack rev_len i (backpointer_t # rest) (best_tag_id, best_path) =
     (let new_best_tag_id = map2 (\<lambda>bp k. bp ! k) backpointer_t best_tag_id;
          msk = map (\<lambda>r. r < int i) rev_len;
          best_tag_id' = map2 (+) (masked_fill1 best_tag_id msk 0)
                                  (masked_fill1 new_best_tag_id (map Not msk) 0)
      in backtrack rev_len (Suc i) rest (best_tag_id', best_path @ [best_tag_id']))"

text \<open>
  \<open>viterbi(unary, tr, lengths, start_idx, end_idx, norm)\<close>.  The sizes that the source
  reads off \<open>unary.size()\<close> are the number of time steps, of lengths and of rows of the
  transition matrix.  \<open>torch.min\<close> fails on an empty length vector, the two index
  operations fail on an index outside \<open>[-N, N)\<close>, and \<open>torch.stack\<close> fails on no time step.
\<close>

definition viterbi ::
  "tensor3 \<Rightarrow> mat \<Rightarrow> int list \<Rightarrow> int \<Rightarrow> int \<Rightarrow> bool \<Rightarrow> error + (nat list list \<times> real list)" where
  "viterbi unary tr lengths start_idx end_idx nrm =
     (let seq_len = length unary; batch_size = length lengths; tag_size = length tr
      in if lengths = [] then Inl RuntimeError
         else case py_index tag_size start_idx of
           None \<Rightarrow> Inl IndexError
         | Some s \<Rightarrow>
            (case py_index tag_size end_idx of
               None \<Rightarrow> Inl IndexError
             | Some e \<Rightarrow>
                (let min_length = min_list lengths;
                     alphas0 = replicate batch_size (init_alpha tag_size s);
                     alphas1 = (if nrm then map log_softmax alphas0 else alphas0);
                     (alphas, backpointers) =
                        viterbi_loop tr lengths min_length 0 unary (alphas1, []);
                     terminal_var = map (\<lambda>a. map2 (+) a (tr ! e)) alphas;
                     mx = map torch_max terminal_var;
                     path_score = map fst mx;
                     best_tag_id = map snd mx;
                     rev_len = map (\<lambda>l. int seq_len - l - 1) lengths;
                     best_path = backtrack rev_len 0 (rev backpointers)
                                   (best_tag_id, [best_tag_id]);
                     best_path1 = rev (butlast best_path)
                 in if best_path1 = [] then Inl RuntimeError
                    else Inr (map2 slice_to (transpose01 best_path1) lengths, path_score))))"

subsection \<open>Construction and the effective transition matrix\<close>

record crf =
  start_idx :: int
  end_idx :: int
  n_tags :: int
  mask :: "bool list list option"
  transitions_p :: mat
  batch_first :: bool

text \<open>
  \<open>CRF.__init__\<close> stores its arguments and allocates the zero parameter matrix.  The only way
  it can fail is the allocation of a tensor with a negative dimension.
\<close>

definition CRF_init :: "int \<Rightarrow> int \<times> int \<Rightarrow> bool \<Rightarrow> bool list list option \<Rightarrow> error + crf" where
  "CRF_init n idxs bf m =
     (if n < 0 then Inl RuntimeError
      else Inr \<lparr> start_idx = fst idxs, end_idx = snd idxs, n_tags = n, mask = m,
                 transitions_p = replicate (nat n) (replicate (nat n) 0), batch_first = bf \<rparr>)"

definition transitions :: "crf \<Rightarrow> mat" where
  "transitions c =
     (case mask c of
        Some m \<Rightarrow> masked_fill2 (transitions_p c) m (- 10000)
      | None \<Rightarrow> transitions_p c)"

definition decode :: "crf \<Rightarrow> tensor3 \<Rightarrow> int list \<Rightarrow> error + (nat list list \<times> real list)" where
  "decode c unary lengths =
     (let unary' = (if batch_first c then transpose01 unary else unary);
          tr = transitions c
      in viterbi unary' tr lengths (start_idx c) (end_idx c) False)"

subsection \<open>The forward recursion (log partition function)\<close>

text \<open>
  Modelled from the spec: \<open>vec_log_sum_exp\<close> (imported from \<open>baseline.pytorch.torchy\<close>) is
  not among the sources.  Following section 4.2 of the specification it is the log-sum-exp
  along one axis in its stabilised form: the maximum of the axis is subtracted before
  exponentiating and added back after the logarithm.
\<close>

definition vec_log_sum_exp :: "vec \<Rightarrow> real" where
  "vec_log_sum_exp xs = (let m = fst (torch_max xs) in m + ln (\<Sum>x\<leftarrow>xs. exp (x - m)))"

text \<open>The loop of \<open>CRF.forward\<close>, \<open>for i, unary_t in enumerate(unary)\<close>, on \<open>alphas\<close>.\<close>

fun forward_loop ::
  "mat \<Rightarrow> int list \<Rightarrow> int \<Rightarrow> nat \<Rightarrow> tensor3 \<Rightarrow> real list list \<Rightarrow> real list list" where
  "forward_loop tr lengths min_length i [] alphas = alphas"
| "forward_loop tr lengths min_length i (unary_t # rest) alphas =
     (let scores = map2 (\<lambda>a u. map2 (\<lambda>row ui. map2 (\<lambda>aj tij. aj + tij + ui) a row) tr u)
                        alphas unary_t;
          new_alphas = map (map vec_log_sum_exp) scores;
          alphas' = (if min_length \<le> int i then blend lengths i alphas new_alphas
                     else new_alphas)
      in forward_loop tr lengths min_length (Suc i) rest alphas')"

definition forward :: "crf \<Rightarrow> tensor3 \<Rightarrow> int list \<Rightarrow> nat \<Rightarrow> error + real list" where
  "forward c unary lengths batch_size =
     (if lengths = [] then Inl RuntimeError
      else case py_index (nat (n_tags c)) (start_idx c) of
        None \<Rightarrow> Inl IndexError
      | Some s \<Rightarrow>
         (let min_length = min_list lengths;
              alphas0 = replicate batch_size (init_alpha (nat (n_tags c)) s);
              tr = transitions c;
              alphas = forward_loop tr lengths min_length 0 unary alphas0
          in case py_index (length tr) (end_idx c) of
               None \<Rightarrow> Inl IndexError
             | Some e \<Rightarrow>
                (let terminal_vars = map (\<lambda>a. map2 (+) a (tr ! e)) alphas
                 in Inr (map vec_log_sum_exp terminal_vars))))"

subsection \<open>The gold-path score and the loss\<close>

text \<open>
  Modelled from the spec: \<open>sequence_mask\<close> (imported from \<open>baseline.pytorch.torchy\<close>) is not
  among the sources.  Following section 4.3 of the specification it marks, for every batch
  element, the positions below that element's length; it is taken at the width of the padded
  time axis it is applied to, as a \<open>[B, T]\<close> tensor.
\<close>

definition sequence_mask :: "int list \<Rightarrow> nat \<Rightarrow> bool list list" where
  "sequence_mask lengths max_len = map (\<lambda>l. map (\<lambda>t. int t < l) [0..<max_len]) lengths"

text \<open>
  Advanced indexing \<open>tr[i, j]\<close> with integer tensors wraps negative indices and fails outside
  \<open>[-N, N)\<close>; \<open>x.gather(dim, idx)\<close> fails outside \<open>[0, N)\<close>.
\<close>

definition index2 :: "mat \<Rightarrow> int \<Rightarrow> int \<Rightarrow> real option" where
  "index2 tr i j =
     (case py_index (length tr) i of
        None \<Rightarrow> None
      | Some i' \<Rightarrow>
         (case py_index (length (tr ! i')) j of
            None \<Rightarrow> None
          | Some j' \<Rightarrow> Some (tr ! i' ! j')))"

definition gather1 :: "'a list \<Rightarrow> int \<Rightarrow> 'a option" where
  "gather1 xs i = (case gather_index (length xs) i of None \<Rightarrow> None | Some k \<Rightarrow> Some (xs ! k))"

definition score_sentence ::
  "crf \<Rightarrow> tensor3 \<Rightarrow> int list list \<Rightarrow> int list \<Rightarrow> nat \<Rightarrow> error + real list" where
  "score_sentence c unary tags lengths batch_size =
     (let tr = transitions c;
          start = replicate batch_size (start_idx c);
          tags1 = start # tags;
          prev_tags = butlast tags1;
          next_tags = tl tags1
      in case those (map2 (\<lambda>ns ps. those (map2 (index2 tr) ns ps)) next_tags prev_tags) of
           None \<Rightarrow> Inl IndexError
         | Some trans_score \<Rightarrow>
            (case those (map2 (\<lambda>u ts. those (map2 gather1 u ts)) unary (tl tags1)) of
               None \<Rightarrow> Inl IndexError
             | Some unary_score \<Rightarrow>
                (let msk = transpose01 (sequence_mask lengths (length unary));
                     scores = map2 (map2 (+)) unary_score trans_score;
                     scores1 = masked_fill2 scores (map (map Not) msk) 0;
                     scores2 = map (\<lambda>b. \<Sum>row\<leftarrow>scores1. row ! b) [0..<batch_size]
                 in case those (map2 (\<lambda>b l. gather1 (map (\<lambda>row. row ! b) tags1) l)
                                  [0..<batch_size] lengths) of
                      None \<Rightarrow> Inl IndexError
                    | Some last_tags \<Rightarrow>
                       (case those (map (index2 tr (end_idx c)) last_tags) of
                          None \<Rightarrow> Inl IndexError
                        | Some eos_scores \<Rightarrow> Inr (map2 (+) scores2 eos_scores)))))"

definition neg_log_loss ::
  "crf \<Rightarrow> tensor3 \<Rightarrow> int list list \<Rightarrow> int list \<Rightarrow> error + real list" where
  "neg_log_loss c unary tags lengths =
     (let unary' = (if batch_first c then transpose01 unary else unary);
          tags' = (if batch_first c then transpose01 tags else tags);
          batch_size = (case unary' of [] \<Rightarrow> 0 | u # _ \<Rightarrow> length u)
      in case forward c unary' lengths batch_size of
           Inl err \<Rightarrow> Inl err
         | Inr fwd_score \<Rightarrow>
            (case score_sentence c unary' tags' lengths batch_size of
               Inl err \<Rightarrow> Inl err
             | Inr gold_score \<Rightarrow> Inr (map2 (-) fwd_score gold_score)))"

subsection \<open>Valid inputs and the quantities the specification speaks of\<close>

text \<open>
  A configured layer: the parameter matrix is \<open>N \<times> N\<close> for \<open>N = n_tags\<close>, a mask has the same
  shape, and the start and end indices lie in \<open>[0, N)\<close>.
\<close>

definition wf_crf :: "crf \<Rightarrow> bool" where
  "wf_crf c \<longleftrightarrow>
     int (length (transitions_p c)) = n_tags c \<and>
     (\<forall>r \<in> set (transitions_p c). length r = length (transitions_p c)) \<and>
     (case mask c of None \<Rightarrow> True
      | Some m \<Rightarrow> length m = length (transitions_p c) \<and>
                  (\<forall>r \<in> set m. length r = length (transitions_p c))) \<and>
     0 \<le> start_idx c \<and> start_idx c < n_tags c \<and>
     0 \<le> end_idx c \<and> end_idx c < n_tags c"

text \<open>
  A time-major batch: an emission tensor \<open>[T, B, n]\<close> with a length vector \<open>[B]\<close>, \<open>B \<ge> 1\<close>,
  every length between \<open>1\<close> and \<open>T\<close>.
\<close>

definition wf_batch :: "nat \<Rightarrow> tensor3 \<Rightarrow> int list \<Rightarrow> bool" where
  "wf_batch n unary lengths \<longleftrightarrow>
     lengths \<noteq> [] \<and>
     (\<forall>u \<in> set unary. length u = length lengths \<and> (\<forall>r \<in> set u. length r = n)) \<and>
     (\<forall>l \<in> set lengths. 1 \<le> l \<and> l \<le> int (length unary))"

text \<open>A gold tag tensor \<open>[T, B]\<close> all of whose entries are tag indices.\<close>

definition wf_tags :: "nat \<Rightarrow> nat \<Rightarrow> nat \<Rightarrow> int list list \<Rightarrow> bool" where
  "wf_tags n T B tags \<longleftrightarrow>
     length tags = T \<and> (\<forall>ts \<in> set tags. length ts = B \<and> (\<forall>t \<in> set ts. 0 \<le> t \<and> t < int n))"

text \<open>The time-major view of the tensor a method is called with.\<close>

definition time_major :: "crf \<Rightarrow> 'a list list \<Rightarrow> 'a list list" where
  "time_major c x = (if batch_first c then transpose01 x else x)"

text \<open>The emission vectors of batch element \<open>b\<close>, one per time step.\<close>

definition emissions :: "tensor3 \<Rightarrow> nat \<Rightarrow> vec list" where
  "emissions unary b = map (\<lambda>unary_t. unary_t ! b) unary"

text \<open>
  The total path score of the tag sequence \<open>ys\<close> against the emissions \<open>em\<close>: at every step
  the emission score of the chosen tag and the transition score into it from its predecessor,
  tag \<open>p\<close> being the virtual predecessor of step \<open>0\<close>, and at the end the transition from the
  last tag into tag \<open>e\<close>.
\<close>

definition path_score :: "mat \<Rightarrow> nat \<Rightarrow> nat \<Rightarrow> vec list \<Rightarrow> nat list \<Rightarrow> real" where
  "path_score tr p e em ys =
     (\<Sum>t<length ys. em ! t ! (ys ! t) + tr ! (ys ! t) ! (if t = 0 then p else ys ! (t - 1)))
       + tr ! e ! (ys ! (length ys - 1))"

text \<open>The score both recursions start from: \<open>0\<close> for the start tag, \<open>-1e4\<close> for any other.\<close>

definition start_score :: "nat \<Rightarrow> nat \<Rightarrow> real" where
  "start_score s p = (if p = s then 0 else - 10000)"

text \<open>
  The best score of a tag sequence when the virtual predecessor of step \<open>0\<close> ranges over all
  \<open>n\<close> tags, each weighted by its start score.
\<close>

definition ext_score :: "nat \<Rightarrow> mat \<Rightarrow> nat \<Rightarrow> nat \<Rightarrow> vec list \<Rightarrow> nat list \<Rightarrow> real" where
  "ext_score n tr s e em ys = Max ((\<lambda>p. start_score s p + path_score tr p e em ys) ` {..<n})"

text \<open>All tag sequences of length \<open>l\<close> over \<open>n\<close> tags.\<close>

definition tag_seqs :: "nat \<Rightarrow> nat \<Rightarrow> nat list list" where
  "tag_seqs n l = List.n_lists l [0..<n]"

subsection \<open>One batch row at a time\<close>

text \<open>
  The recursions restricted to a single batch row, with the freezing rule \<open>i < length\<close> in
  place of the mask; the batched loops are shown below to compute exactly these row by row.
\<close>

definition vit_step :: "mat \<Rightarrow> vec \<Rightarrow> vec \<Rightarrow> vec" where
  "vit_step tr a u = map2 (+) (map (\<lambda>row. fst (torch_max (map2 (+) a row))) tr) u"

definition vit_bp :: "mat \<Rightarrow> vec \<Rightarrow> nat list" where
  "vit_bp tr a = map (\<lambda>row. snd (torch_max (map2 (+) a row))) tr"

fun row_viterbi :: "mat \<Rightarrow> int \<Rightarrow> nat \<Rightarrow> vec list \<Rightarrow> vec \<times> nat list list \<Rightarrow> vec \<times> nat list list" where
  "row_viterbi tr l i [] st = st"
| "row_viterbi tr l i (u # us) (a, bps) =
     row_viterbi tr l (Suc i) us (if int i < l then vit_step tr a u else a, bps @ [vit_bp tr a])"

definition fwd_step :: "mat \<Rightarrow> vec \<Rightarrow> vec \<Rightarrow> vec" where
  "fwd_step tr a u = map2 (\<lambda>row ui. vec_log_sum_exp (map2 (\<lambda>aj tij. aj + tij + ui) a row)) tr u"

fun row_forward :: "mat \<Rightarrow> int \<Rightarrow> nat \<Rightarrow> vec list \<Rightarrow> vec \<Rightarrow> vec" where
  "row_forward tr l i [] a = a"
| "row_forward tr l i (u # us) a =
     row_forward tr l (Suc i) us (if int i < l then fwd_step tr a u else a)"

fun row_backtrack :: "int \<Rightarrow> nat \<Rightarrow> nat list list \<Rightarrow> nat \<times> nat list \<Rightarrow> nat list" where
  "row_backtrack r i [] (k, path) = path"
| "row_backtrack r i (bp # rest) (k, path) =
     (let k' = (if r < int i then bp ! k else k) in row_backtrack r (Suc i) rest (k', path @ [k']))"

text \<open>The recursions without freezing, over exactly the steps of a sequence.\<close>

fun vit_alpha :: "mat \<Rightarrow> vec list \<Rightarrow> vec \<Rightarrow> vec" where
  "vit_alpha tr [] a = a"
| "vit_alpha tr (u # us) a = vit_alpha tr us (vit_step tr a u)"

fun vit_bps :: "mat \<Rightarrow> vec list \<Rightarrow> vec \<Rightarrow> nat list list" where
  "vit_bps tr [] a = []"
| "vit_bps tr (u # us) a = vit_bp tr a # vit_bps tr us (vit_step tr a u)"

fun fwd_alpha :: "mat \<Rightarrow> vec list \<Rightarrow> vec \<Rightarrow> vec" where
  "fwd_alpha tr [] a = a"
| "fwd_alpha tr (u # us) a = fwd_alpha tr us (fwd_step tr a u)"

text \<open>
  Following back-pointers from the tag \<open>k\<close> reached last: the result lists the virtual
  predecessor first, then the tags of the steps in time order, ending in \<open>k\<close>.
\<close>

fun trace :: "nat list list \<Rightarrow> nat \<Rightarrow> nat list" where
  "trace [] k = [k]"
| "trace (bp # bps) k = (let r = trace bps k in (bp ! hd r) # r)"

text \<open>The same walk in the order the backward loop makes it, last back-pointer first.\<close>

fun chain :: "nat list list \<Rightarrow> nat \<Rightarrow> nat list" where
  "chain [] k = []"
| "chain (bp # rest) k = (bp ! k) # chain rest (bp ! k)"

text \<open>
  The score collected along \<open>ys\<close> after predecessor \<open>p\<close>, without the final transition.
\<close>

fun walk :: "mat \<Rightarrow> vec list \<Rightarrow> nat \<Rightarrow> nat list \<Rightarrow> real" where
  "walk tr (u # us) p (y # ys) = tr ! y ! p + u ! y + walk tr us y ys"
| "walk tr us p ys = 0"

text \<open>What decoding computes for one batch row from the emissions of its true steps.\<close>

definition row_decode :: "mat \<Rightarrow> nat \<Rightarrow> nat \<Rightarrow> vec list \<Rightarrow> nat list \<times> real" where
  "row_decode tr s e em =
     (let a0 = init_alpha (length tr) s;
          (m, k) = torch_max (map2 (+) (vit_alpha tr em a0) (tr ! e))
      in (tl (trace (vit_bps tr em a0) k), m))"

subsection \<open>A small configured layer and batch\<close>

text \<open>
  Two tags, start tag \<open>0\<close> and end tag \<open>1\<close>; the mask forbids every transition out of the
  start tag, the parameter scores every transition out of tag \<open>1\<close> with \<open>1\<close>.  The batch holds
  one sequence of one step.
\<close>

definition crf_example :: crf where
  "crf_example = \<lparr> start_idx = 0, end_idx = 1, n_tags = 2,
                     mask = Some [[True, False], [True, False]],
                     transitions_p = [[0, 1], [0, 1]], batch_first = False \<rparr>"

definition unary_example :: tensor3 where
  "unary_example = [[[0, 0]]]"

section \<open>Properties\<close>

subsection \<open>Tensor primitives\<close>

lemma torch_max_ge: "x \<in> set xs \<Longrightarrow> x \<le> fst (torch_max xs)"
  by (induction xs rule: torch_max.induct) (auto split: prod.splits if_splits)

lemma torch_max_index: "xs \<noteq> [] \<Longrightarrow> snd (torch_max xs) < length xs \<and> xs ! snd (torch_max xs) = fst (torch_max xs)"
  by (induction xs rule: torch_max.induct) (auto split: prod.splits if_splits)

lemma torch_max_nth_ge: "i < length xs \<Longrightarrow> xs ! i \<le> fst (torch_max xs)"
  by (simp add: torch_max_ge)

lemma length_vit_step: "length u = length tr \<Longrightarrow> length (vit_step tr a u) = length tr"
  by (simp add: vit_step_def)

lemma length_vit_bp: "length (vit_bp tr a) = length tr"
  by (simp add: vit_bp_def)

lemma nth_vit_step:
  "i < length tr \<Longrightarrow> length u = length tr \<Longrightarrow>
   vit_step tr a u ! i = fst (torch_max (map2 (+) a (tr ! i))) + u ! i"
  by (simp add: vit_step_def)

lemma nth_vit_bp: "i < length tr \<Longrightarrow> vit_bp tr a ! i = snd (torch_max (map2 (+) a (tr ! i)))"
  by (simp add: vit_bp_def)

lemma blend_nth:
  assumes "b < length lengths" "length alphas = length lengths" "length new_alphas = length lengths"
    "length (alphas ! b) = length (new_alphas ! b)"
  shows "blend lengths i alphas new_alphas ! b = (if int i < lengths ! b then new_alphas ! b else alphas ! b)"
  using assms by (auto simp: blend_def masked_fill_def Let_def intro!: nth_equalityI)

lemma length_blend:
  "length alphas = length lengths \<Longrightarrow> length new_alphas = length lengths \<Longrightarrow>
   length (blend lengths i alphas new_alphas) = length lengths"
  by (simp add: blend_def masked_fill_def Let_def)

subsection \<open>The batched Viterbi loop, row by row\<close>

lemma viterbi_loop_Cons:
  "viterbi_loop tr lengths ml i (u # rest) (alphas, bps) =
     viterbi_loop tr lengths ml (Suc i) rest
       (if ml \<le> int i then blend lengths i alphas (map2 (vit_step tr) alphas u)
        else map2 (vit_step tr) alphas u,
        bps @ [map (vit_bp tr) alphas])"
  by (simp add: Let_def vit_step_def vit_bp_def[abs_def] zip_map1 comp_def split_def)

lemma viterbi_loop_row:
  assumes "b < length lengths" "length tr = n"
    and "\<forall>l \<in> set lengths. ml \<le> l"
  shows "length alphas = length lengths \<Longrightarrow> \<forall>a \<in> set alphas. length a = n \<Longrightarrow>
     \<forall>u \<in> set unary. length u = length lengths \<and> (\<forall>r \<in> set u. length r = n) \<Longrightarrow>
     viterbi_loop tr lengths ml i unary (alphas, bps) = (A, P) \<Longrightarrow>
     length A = length lengths \<and> (\<forall>a \<in> set A. length a = n) \<and>
     (A ! b, map (\<lambda>p. p ! b) P) =
        row_viterbi tr (lengths ! b) i (emissions unary b) (alphas ! b, map (\<lambda>p. p ! b) bps)"
proof (induction unary arbitrary: i alphas bps)
  case Nil
  then show ?case by (simp add: emissions_def)
next
  case (Cons u rest)
  let ?new = "map2 (vit_step tr) alphas u"
  let ?al = "if ml \<le> int i then blend lengths i alphas ?new else ?new"
  have lu: "length u = length lengths" and ru: "\<forall>r \<in> set u. length r = n"
    using Cons.prems(3) by auto
  have len_new: "length ?new = length lengths"
    using Cons.prems(1) lu by simp
  have rows_new: "\<forall>a \<in> set ?new. length a = n"
    using ru assms(2) by (auto simp: set_zip vit_step_def)
  have new_b: "?new ! b = vit_step tr (alphas ! b) (u ! b)"
    using assms(1) Cons.prems(1) lu by simp
  have len_al: "length ?al = length lengths"
    using len_new Cons.prems(1) by (simp add: length_blend)
  have rows_al: "\<forall>a \<in> set ?al. length a = n"
  proof
    fix a assume "a \<in> set ?al"
    then obtain k where k: "k < length lengths" "a = ?al ! k"
      using len_al by (metis in_set_conv_nth)
    have "length (alphas ! k) = n" "length (?new ! k) = n"
      using k(1) Cons.prems(1,2) rows_new len_new by (metis nth_mem)+
    then show "length a = n"
      using k Cons.prems(1) len_new by (simp add: blend_nth)
  qed
  have al_b: "?al ! b = (if int i < lengths ! b then vit_step tr (alphas ! b) (u ! b) else alphas ! b)"
  proof (cases "ml \<le> int i")
    case True
    have "length (alphas ! b) = length (?new ! b)"
      using assms(1) Cons.prems(1,2) rows_new len_new by (metis nth_mem)
    then show ?thesis
      using True assms(1) Cons.prems(1) len_new new_b by (simp add: blend_nth)
  next
    case False
    moreover have "ml \<le> lengths ! b" using assms(1,3) by simp
    ultimately show ?thesis using new_b by simp
  qed
  have rest: "\<forall>u \<in> set rest. length u = length lengths \<and> (\<forall>r \<in> set u. length r = n)"
    using Cons.prems(3) by simp
  have run: "viterbi_loop tr lengths ml (Suc i) rest (?al, bps @ [map (vit_bp tr) alphas]) = (A, P)"
    using Cons.prems(4) by (simp only: viterbi_loop_Cons)
  have bp_b: "map (vit_bp tr) alphas ! b = vit_bp tr (alphas ! b)"
    using assms(1) Cons.prems(1) by simp
  from Cons.IH[OF len_al rows_al rest run]
  show ?case
    by (simp add: emissions_def al_b bp_b)
qed

subsection \<open>Freezing and the backward walk on one row\<close>

lemma row_viterbi_alpha:
  "fst (row_viterbi tr l i us (a, bps)) = vit_alpha tr (take (nat l - i) us) a"
proof (induction us arbitrary: i a bps)
  case Nil
  then show ?case by simp
next
  case (Cons u us)
  show ?case
  proof (cases "int i < l")
    case True
    then have "nat l - i = Suc (nat l - Suc i)" by linarith
    then show ?thesis using True Cons.IH by simp
  next
    case False
    then have "nat l - i = 0" "nat l - Suc i = 0" by linarith+
    then show ?thesis using False Cons.IH[of "Suc i" a "bps @ [vit_bp tr a]"] by simp
  qed
qed

lemma row_viterbi_bps:
  "take (length bps + (nat l - i)) (snd (row_viterbi tr l i us (a, bps)))
     = bps @ vit_bps tr (take (nat l - i) us) a"
proof (induction us arbitrary: i a bps)
  case Nil
  then show ?case by simp
next
  case (Cons u us)
  show ?case
  proof (cases "int i < l")
    case True
    then have e: "nat l - i = Suc (nat l - Suc i)" by linarith
    show ?thesis
      using True Cons.IH[of "bps @ [vit_bp tr a]" "Suc i" "vit_step tr a u"] by (simp add: e)
  next
    case False
    then have e: "nat l - i = 0" "nat l - Suc i = 0" by linarith+
    have "take (length bps) (take (length (bps @ [vit_bp tr a]) + (nat l - Suc i))
            (snd (row_viterbi tr l (Suc i) us (a, bps @ [vit_bp tr a])))) = take (length bps) ((bps @ [vit_bp tr a]) @ vit_bps tr (take (nat l - Suc i) us) a)"
      by (simp only: Cons.IH)
    then show ?thesis using False by (simp add: e)
  qed
qed

lemma length_row_viterbi_bps:
  "length (snd (row_viterbi tr l i us (a, bps))) = length bps + length us"
  by (induction us arbitrary: i a bps) auto

lemma row_backtrack_hold:
  "int (i + length rs) \<le> r + 1 \<Longrightarrow>
   row_backtrack r i (rs @ rest) (k, path) =
   row_backtrack r (i + length rs) rest (k, path @ replicate (length rs) k)"
proof (induction rs arbitrary: i path)
  case Nil
  then show ?case by simp
next
  case (Cons bp rs)
  then have "\<not> r < int i" "int (Suc i + length rs) \<le> r + 1" by simp_all
  then show ?case using Cons.IH[of "Suc i" "path @ [k]"]
    by (simp add: replicate_append_same)
qed

lemma row_backtrack_active:
  "r < int i \<Longrightarrow> row_backtrack r i rs (k, path) = path @ chain rs k"
  by (induction rs arbitrary: i k path) (auto simp: Let_def)

lemma length_chain: "length (chain rs k) = length rs"
  by (induction rs arbitrary: k) auto

lemma trace_nonempty: "trace bps k \<noteq> []"
  by (cases bps) (auto simp: Let_def)

lemma trace_snoc: "trace (bps @ [bp]) k = trace bps (bp ! k) @ [k]"
  by (induction bps) (auto simp: Let_def trace_nonempty)

lemma trace_chain: "trace bps k = rev (k # chain (rev bps) k)"
  by (induction bps arbitrary: k rule: rev_induct) (auto simp: trace_snoc)


lemma backtrack_row:
  assumes "b < length rev_len"
  shows "length best = length rev_len \<Longrightarrow> \<forall>bp \<in> set rbps. length bp = length rev_len \<Longrightarrow>
    map (\<lambda>p. p ! b) (backtrack rev_len i rbps (best, path)) =
      row_backtrack (rev_len ! b) i (map (\<lambda>bp. bp ! b) rbps) (best ! b, map (\<lambda>p. p ! b) path)"
proof (induction rbps arbitrary: i best path)
  case Nil
  then show ?case by simp
next
  case (Cons bp rest)
  define bst where "bst = map2 (+) (masked_fill1 best (map (\<lambda>r. r < int i) rev_len) 0)
     (masked_fill1 (map2 (\<lambda>bp k. bp ! k) bp best) (map Not (map (\<lambda>r. r < int i) rev_len)) 0)"
  have lbp: "length bp = length rev_len" using Cons.prems(2) by simp
  have len: "length bst = length rev_len"
    using Cons.prems(1) lbp by (simp add: masked_fill1_def bst_def)
  have nb: "bst ! b = (if rev_len ! b < int i then bp ! b ! (best ! b) else best ! b)"
    using assms Cons.prems(1) lbp by (simp add: masked_fill1_def bst_def)
  have rest: "\<forall>bp \<in> set rest. length bp = length rev_len" using Cons.prems(2) by simp
  have step: "backtrack rev_len i (bp # rest) (best, path)
                = backtrack rev_len (Suc i) rest (bst, path @ [bst])"
    by (simp add: Let_def bst_def)
  show ?case
    unfolding step using Cons.IH[OF len rest, of "Suc i" "path @ [bst]"]
    by (simp add: Let_def nb)
qed

lemma row_backtrack_full:
  assumes "1 \<le> l" "l \<le> int (length bps)"
  shows "row_backtrack (int (length bps) - l - 1) 0 (rev bps) (k, [k]) =
           [k] @ replicate (length bps - nat l) k @ chain (rev (take (nat l) bps)) k"
proof -
  let ?L = "nat l" and ?T = "length bps" and ?r = "int (length bps) - l - 1"
  let ?hs = "rev (drop ?L bps)"
  have split: "rev bps = ?hs @ rev (take ?L bps)"
    by (metis append_take_drop_id rev_append)
  have len: "length ?hs = ?T - ?L" by simp
  have hold: "int (0 + length ?hs) \<le> ?r + 1"
    using assms by simp
  have act: "?r < int (?T - ?L)"
    using assms by simp
  have "row_backtrack ?r 0 (rev bps) (k, [k])
          = row_backtrack ?r (0 + length ?hs) (rev (take ?L bps)) (k, [k] @ replicate (length ?hs) k)"
    unfolding split by (rule row_backtrack_hold[OF hold])
  also have "\<dots> = row_backtrack ?r (?T - ?L) (rev (take ?L bps)) (k, [k] @ replicate (?T - ?L) k)"
    by (simp only: len add_0)
  also have "\<dots> = ([k] @ replicate (?T - ?L) k) @ chain (rev (take ?L bps)) k"
    by (rule row_backtrack_active[OF act])
  finally show ?thesis by simp
qed

lemma tl_rev: "tl (rev c) = rev (butlast c)"
  by (induction c rule: rev_induct) auto

lemma take_rev_butlast:
  assumes "c \<noteq> []"
  shows "take (length c) (rev (butlast ([k] @ replicate m k @ c))) = rev (butlast c) @ [k]"
proof -
  have "butlast ([k] @ replicate m k @ c) = (k # replicate m k) @ butlast c"
    using assms by (simp add: butlast_append)
  then have "rev (butlast ([k] @ replicate m k @ c)) = rev (butlast c) @ (k # replicate m k)"
    by (simp add: replicate_append_same)
  moreover have "length (rev (butlast c)) = length c - 1" by simp
  moreover have "length c - (length c - 1) = Suc 0" using assms by (cases c) auto
  ultimately show ?thesis by (simp del: rev_append rev.simps butlast.simps)
qed

lemma decoded_row:
  assumes "1 \<le> l" "l \<le> int (length bps)"
  shows "slice_to (rev (butlast (row_backtrack (int (length bps) - l - 1) 0 (rev bps) (k, [k])))) l
           = tl (trace (take (nat l) bps) k)"
proof -
  let ?L = "nat l" and ?T = "length bps"
  let ?c = "chain (rev (take ?L bps)) k"
  have lc: "length ?c = ?L" using assms by (simp add: length_chain)
  then have ne: "?c \<noteq> []" using assms by auto
  have "slice_to (rev (butlast (row_backtrack (int ?T - l - 1) 0 (rev bps) (k, [k])))) l
          = take (length ?c) (rev (butlast ([k] @ replicate (?T - ?L) k @ ?c)))"
    using assms by (simp only: row_backtrack_full[OF assms] slice_to_def lc) simp
  also have "\<dots> = rev (butlast ?c) @ [k]"
    by (rule take_rev_butlast[OF ne])
  also have "\<dots> = tl (trace (take ?L bps) k)"
    using ne by (simp add: trace_chain tl_rev)
  finally show ?thesis .
qed


subsection \<open>Optimality of the max recursion on one row\<close>

lemma length_vit_alpha:
  "length a = length tr \<Longrightarrow> \<forall>u \<in> set us. length u = length tr \<Longrightarrow>
   length (vit_alpha tr us a) = length tr"
  by (induction us arbitrary: a) (auto simp: length_vit_step)

lemma vit_step_ge:
  assumes "y < length tr" "p < length a" "length a = length (tr ! y)" "length u = length tr"
  shows "a ! p + tr ! y ! p + u ! y \<le> vit_step tr a u ! y"
proof -
  have "map2 (+) a (tr ! y) ! p \<le> fst (torch_max (map2 (+) a (tr ! y)))"
    using assms by (intro torch_max_nth_ge) simp
  then show ?thesis using assms by (simp add: nth_vit_step)
qed

lemma torch_max_map2:
  assumes "length a = length r" "a \<noteq> []"
  shows "snd (torch_max (map2 (+) a r)) < length a"
    and "a ! snd (torch_max (map2 (+) a r)) + r ! snd (torch_max (map2 (+) a r))
           = fst (torch_max (map2 (+) a r))"
proof -
  define xs where "xs = map2 (+) a r"
  have ne: "xs \<noteq> []" using assms by (cases a; cases r) (auto simp: xs_def)
  have k: "snd (torch_max xs) < length xs" "xs ! snd (torch_max xs) = fst (torch_max xs)"
    using torch_max_index[OF ne] by simp_all
  have len: "length xs = length a" using assms by (simp add: xs_def)
  show "snd (torch_max (map2 (+) a r)) < length a"
    using k(1) len by (simp add: xs_def)
  have "xs ! snd (torch_max xs) = a ! snd (torch_max xs) + r ! snd (torch_max xs)"
    using k(1) len assms(1) by (simp add: xs_def)
  then show "a ! snd (torch_max (map2 (+) a r)) + r ! snd (torch_max (map2 (+) a r))
           = fst (torch_max (map2 (+) a r))"
    using k(2) by (simp add: xs_def)
qed

lemma vit_upper:
  assumes "length tr = n" "\<forall>r \<in> set tr. length r = n"
  shows "length ys = length us \<Longrightarrow> p < n \<Longrightarrow> \<forall>y \<in> set ys. y < n \<Longrightarrow> length a = n \<Longrightarrow>
     \<forall>u \<in> set us. length u = n \<Longrightarrow>
     a ! p + walk tr us p ys \<le> vit_alpha tr us a ! last (p # ys)"
proof (induction us arbitrary: a p ys)
  case Nil
  then show ?case by simp
next
  case (Cons u us)
  then obtain y ys' where ys: "ys = y # ys'" by (cases ys) auto
  have y: "y < n" using Cons.prems(3) ys by simp
  have "length (tr ! y) = n" using assms y by simp
  then have "a ! p + tr ! y ! p + u ! y \<le> vit_step tr a u ! y"
    using assms(1) y Cons.prems by (intro vit_step_ge) simp_all
  moreover have "vit_step tr a u ! y + walk tr us y ys' \<le> vit_alpha tr us (vit_step tr a u) ! last (y # ys')"
    using Cons.prems ys y assms(1) by (intro Cons.IH) (simp_all add: length_vit_step)
  ultimately show ?case using ys by simp
qed

lemma vit_trace:
  assumes "length tr = n" "\<forall>r \<in> set tr. length r = n"
  shows "k < n \<Longrightarrow> length a = n \<Longrightarrow> \<forall>u \<in> set us. length u = n \<Longrightarrow>
     (let r = trace (vit_bps tr us a) k
      in length r = Suc (length us) \<and> (\<forall>y \<in> set r. y < n) \<and> last r = k \<and>
         a ! hd r + walk tr us (hd r) (tl r) = vit_alpha tr us a ! k)"
proof (induction us arbitrary: a)
  case Nil
  then show ?case by simp
next
  case (Cons u us)
  let ?a' = "vit_step tr a u"
  let ?r' = "trace (vit_bps tr us ?a') k"
  let ?y = "hd ?r'"
  let ?p = "vit_bp tr a ! ?y"
  have la': "length ?a' = n" using Cons.prems assms(1) by (simp add: length_vit_step)
  have ih: "length ?r' = Suc (length us)" "\<forall>y \<in> set ?r'. y < n" "last ?r' = k"
    "?a' ! ?y + walk tr us ?y (tl ?r') = vit_alpha tr us ?a' ! k"
    using Cons.IH[OF Cons.prems(1) la'] Cons.prems(3) by (simp_all add: Let_def)
  have ne: "?r' \<noteq> []" by (rule trace_nonempty)
  have y: "?y < n" using ih(2) ne by simp
  have row: "length (tr ! ?y) = n" using assms y by simp
  have lar: "length a = length (tr ! ?y)" "a \<noteq> []" using row Cons.prems(2) y by auto
  have p: "?p < n" "a ! ?p + tr ! ?y ! ?p = fst (torch_max (map2 (+) a (tr ! ?y)))"
    using torch_max_map2[OF lar] y assms(1) Cons.prems(2) by (simp_all add: nth_vit_bp)
  have a'y: "?a' ! ?y = fst (torch_max (map2 (+) a (tr ! ?y))) + u ! ?y"
    using y assms(1) Cons.prems(3) by (simp add: nth_vit_step)
  have r': "?r' = ?y # tl ?r'" using ne by simp
  have w: "walk tr (u # us) ?p (?y # tl ?r') = tr ! ?y ! ?p + u ! ?y + walk tr us ?y (tl ?r')"
    by simp
  have tr_eq: "trace (vit_bps tr (u # us) a) k = ?p # ?r'" by (simp add: Let_def)
  have "a ! ?p + walk tr (u # us) ?p ?r' = vit_alpha tr (u # us) a ! k"
    using w r' p(2) a'y ih(4) by (metis (no_types, lifting) add.assoc vit_alpha.simps(2))
  then show ?case
    unfolding tr_eq Let_def using ih(1,2,3) p(1) ne by simp
qed

lemma walk_sum:
  "length ys \<le> length us \<Longrightarrow>
   walk tr us p ys = (\<Sum>t<length ys. us ! t ! (ys ! t) + tr ! (ys ! t) ! (if t = 0 then p else ys ! (t - 1)))"
proof (induction tr us p ys rule: walk.induct)
  case (1 tr u us p y ys)
  then have "walk tr us y ys = (\<Sum>t<length ys. us ! t ! (ys ! t) + tr ! (ys ! t) ! (if t = 0 then y else ys ! (t - 1)))"
    by simp
  moreover have "(\<Sum>t<length ys. (u # us) ! Suc t ! ((y # ys) ! Suc t) + tr ! ((y # ys) ! Suc t) ! (if Suc t = 0 then p else (y # ys) ! (Suc t - 1)))
     = (\<Sum>t<length ys. us ! t ! (ys ! t) + tr ! (ys ! t) ! (if t = 0 then y else ys ! (t - 1)))"
    by (intro sum.cong) (auto simp: nth_Cons')
  ultimately show ?case
    by (simp add: sum.lessThan_Suc_shift del: sum.lessThan_Suc)
qed auto

lemma walk_take: "walk tr (take (length ys) us) p ys = walk tr us p ys"
  by (induction tr us p ys rule: walk.induct) auto

lemma path_score_walk:
  "ys \<noteq> [] \<Longrightarrow> length ys \<le> length em \<Longrightarrow>
   path_score tr p e em ys = walk tr em p ys + tr ! e ! last ys"
  by (simp add: path_score_def walk_sum last_conv_nth)

subsection \<open>Shapes kept by the loops\<close>

lemma viterbi_loop_shape:
  "length alphas = length lengths \<Longrightarrow> \<forall>u \<in> set unary. length u = length lengths \<Longrightarrow>
   \<forall>p \<in> set bps. length p = length lengths \<Longrightarrow>
   length (snd (viterbi_loop tr lengths ml i unary (alphas, bps))) = length bps + length unary \<and>
   (\<forall>p \<in> set (snd (viterbi_loop tr lengths ml i unary (alphas, bps))). length p = length lengths)"
proof (induction unary arbitrary: i alphas bps)
  case Nil
  then show ?case by simp
next
  case (Cons u rest)
  define al where "al = (if ml \<le> int i then blend lengths i alphas (map2 (vit_step tr) alphas u)
                         else map2 (vit_step tr) alphas u)"
  define bps' where "bps' = bps @ [map (vit_bp tr) alphas]"
  have "length (map2 (vit_step tr) alphas u) = length lengths" using Cons.prems by simp
  then have l1: "length al = length lengths"
    using Cons.prems(1) by (simp add: length_blend al_def)
  have l2: "\<forall>u \<in> set rest. length u = length lengths" using Cons.prems(2) by simp
  have l3: "\<forall>p \<in> set bps'. length p = length lengths"
    using Cons.prems(1,3) by (simp add: bps'_def)
  have step: "viterbi_loop tr lengths ml i (u # rest) (alphas, bps)
                = viterbi_loop tr lengths ml (Suc i) rest (al, bps')"
    unfolding al_def bps'_def by (rule viterbi_loop_Cons)
  have "length bps' + length rest = length bps + length (u # rest)" by (simp add: bps'_def)
  then show ?case
    unfolding step using Cons.IH[OF l1 l2 l3, of "Suc i"] by simp
qed


lemma length_backtrack:
  "length (backtrack rev_len i rbps (best, path)) = length path + length rbps"
  by (induction rbps arbitrary: i best path) (auto simp: Let_def)

lemma backtrack_shape:
  "length best = length rev_len \<Longrightarrow> \<forall>bp \<in> set rbps. length bp = length rev_len \<Longrightarrow>
   \<forall>p \<in> set path. length p = length rev_len \<Longrightarrow>
   \<forall>p \<in> set (backtrack rev_len i rbps (best, path)). length p = length rev_len"
proof (induction rbps arbitrary: i best path)
  case Nil
  then show ?case by simp
next
  case (Cons bp rest)
  define bst where "bst = map2 (+) (masked_fill1 best (map (\<lambda>r. r < int i) rev_len) 0)
     (masked_fill1 (map2 (\<lambda>bp k. bp ! k) bp best) (map Not (map (\<lambda>r. r < int i) rev_len)) 0)"
  have step: "backtrack rev_len i (bp # rest) (best, path)
                = backtrack rev_len (Suc i) rest (bst, path @ [bst])"
    by (simp add: Let_def bst_def)
  have len: "length bst = length rev_len"
    using Cons.prems(1,2) by (simp add: masked_fill1_def bst_def)
  show ?case
    unfolding step using Cons.IH[OF len, of "path @ [bst]" "Suc i"] Cons.prems len by simp
qed

lemma init_alpha_nth: "p < n \<Longrightarrow> init_alpha n s ! p = start_score s p"
  by (simp add: init_alpha_def start_score_def)

lemma length_init_alpha: "length (init_alpha n s) = n"
  by (simp add: init_alpha_def)

lemma transpose01_nth:
  assumes "xs \<noteq> []" "\<forall>r \<in> set xs. length r = n" "j < n"
  shows "transpose01 xs ! j = map (\<lambda>row. row ! j) xs" and "length (transpose01 xs) = n"
  using assms by (cases xs; simp add: transpose01_def)+

subsection \<open>The batched decoder computes the row decoder on every row\<close>

lemma min_list_le: "l \<in> set (ls::int list) \<Longrightarrow> min_list ls \<le> l"
proof -
  assume l: "l \<in> set ls"
  then have "ls \<noteq> []" by auto
  then have "min_list ls = Min (set ls)" by (rule min_list_Min)
  then show ?thesis using l by simp
qed

lemma viterbi_rows:
  assumes tr: "length tr = n" "\<forall>r \<in> set tr. length r = n"
    and wf: "wf_batch n unary lengths"
    and s: "s < n" and e: "e < n"
  shows "viterbi unary tr lengths (int s) (int e) False =
           Inr (map (\<lambda>b. fst (row_decode tr s e (take (nat (lengths ! b)) (emissions unary b)))) [0..<length lengths],
                map (\<lambda>b. snd (row_decode tr s e (take (nat (lengths ! b)) (emissions unary b)))) [0..<length lengths])"
proof -
  let ?B = "length lengths" and ?T = "length unary"
  let ?a0 = "init_alpha n s"
  have ne: "lengths \<noteq> []" and shp: "\<forall>u \<in> set unary. length u = ?B \<and> (\<forall>r \<in> set u. length r = n)"
    and len: "\<forall>l \<in> set lengths. 1 \<le> l \<and> l \<le> int ?T"
    using wf by (auto simp: wf_batch_def)
  obtain A P where AP: "viterbi_loop tr lengths (min_list lengths) 0 unary (replicate ?B ?a0, []) = (A, P)"
    by fastforce
  have ml: "\<forall>l \<in> set lengths. min_list lengths \<le> l" by (simp add: min_list_le)
  have row: "length A = ?B \<and> (\<forall>a \<in> set A. length a = n) \<and>
      (A ! b, map (\<lambda>p. p ! b) P) = row_viterbi tr (lengths ! b) 0 (emissions unary b) (?a0, [])" if "b < ?B" for b
    using viterbi_loop_row[OF that tr(1) ml _ _ _ AP] shp that by (simp add: length_init_alpha)
  have lA: "length A = ?B" and rA: "\<forall>a \<in> set A. length a = n"
    using row[of 0] ne by auto
  have P: "length P = ?T" "\<forall>p \<in> set P. length p = ?B"
    using viterbi_loop_shape[of "replicate ?B ?a0" lengths unary "[]" tr "min_list lengths" 0] shp AP by auto
  define best where "best = map snd (map torch_max (map (\<lambda>a. map2 (+) a (tr ! e)) A))"
  define bp where "bp = backtrack (map (\<lambda>l. int ?T - l - 1) lengths) 0 (rev P) (best, [best])"
  have lbest: "length best = ?B" by (simp add: best_def lA)
  have lbp: "length bp = Suc ?T" by (simp add: bp_def length_backtrack P)
  have rbp: "\<forall>p \<in> set bp. length p = ?B"
    unfolding bp_def using backtrack_shape[of best "map (\<lambda>l. int ?T - l - 1) lengths" "rev P" "[best]" 0] lbest P(2)
    by simp
  have Tpos: "0 < ?T" using ne len by (cases lengths) auto
  define bp1 where "bp1 = rev (butlast bp)"
  have lbp1: "length bp1 = ?T" using lbp by (simp add: bp1_def)
  have bp1: "bp1 \<noteq> []" "\<forall>p \<in> set bp1. length p = ?B"
  proof -
    show "bp1 \<noteq> []" using lbp1 Tpos by (cases bp1) auto
    show "\<forall>p \<in> set bp1. length p = ?B"
      using rbp by (auto simp: bp1_def dest: in_set_butlastD)
  qed
  have res: "viterbi unary tr lengths (int s) (int e) False =
               Inr (map2 slice_to (transpose01 bp1) lengths, map fst (map torch_max (map (\<lambda>a. map2 (+) a (tr ! e)) A)))"
    using ne s e tr(1) bp1(1) AP
    by (simp add: viterbi_def py_index_def Let_def bp1_def bp_def best_def comp_def)
  have per_row: "slice_to (transpose01 bp1 ! b) (lengths ! b)
                   = fst (row_decode tr s e (take (nat (lengths ! b)) (emissions unary b)))
                 \<and> fst (torch_max (map2 (+) (A ! b) (tr ! e)))
                   = snd (row_decode tr s e (take (nat (lengths ! b)) (emissions unary b)))"
    if b: "b < ?B" for b
  proof -
    let ?l = "lengths ! b"
    let ?em = "emissions unary b"
    let ?emL = "take (nat ?l) ?em"
    define bpsb where "bpsb = map (\<lambda>p. p ! b) P"
    have l: "1 \<le> ?l" "?l \<le> int ?T" using len b by simp_all
    have rv: "(A ! b, bpsb) = row_viterbi tr ?l 0 ?em (?a0, [])"
      using row[OF b] by (simp add: bpsb_def)
    have Ab: "A ! b = vit_alpha tr ?emL ?a0"
      using row_viterbi_alpha[of tr ?l 0 ?em ?a0 "[]"] rv[symmetric] by simp
    have lb: "length bpsb = ?T" by (simp add: bpsb_def P(1))
    have tb: "take (nat ?l) bpsb = vit_bps tr ?emL ?a0"
      using row_viterbi_bps[of "[]" ?l 0 tr ?em ?a0] rv[symmetric] by simp
    have kb: "best ! b = snd (torch_max (map2 (+) (A ! b) (tr ! e)))"
      using b lA by (simp add: best_def)
    have "transpose01 bp1 ! b = map (\<lambda>row. row ! b) bp1"
      using transpose01_nth(1)[OF bp1(1) bp1(2) b] .
    also have "\<dots> = rev (butlast (map (\<lambda>row. row ! b) bp))"
      unfolding bp1_def by (simp only: rev_map[symmetric] map_butlast)
    also have "map (\<lambda>row. row ! b) bp
        = row_backtrack (int (length bpsb) - ?l - 1) 0 (rev bpsb) (best ! b, [best ! b])"
      unfolding bp_def
      using backtrack_row[of b "map (\<lambda>l. int ?T - l - 1) lengths" best "rev P" 0 "[best]"] b lbest P(2)
      by (simp add: rev_map bpsb_def P(1))
    finally have "slice_to (transpose01 bp1 ! b) ?l = tl (trace (take (nat ?l) bpsb) (best ! b))"
      using decoded_row[of ?l bpsb "best ! b"] l lb by simp
    then show ?thesis
      using Ab kb tb tr(1) by (simp add: row_decode_def Let_def split_def)
  qed
  have ltb: "length (transpose01 bp1) = ?B"
    using transpose01_nth(2)[OF bp1(1) bp1(2), of 0] ne by simp
  have paths: "map2 slice_to (transpose01 bp1) lengths
      = map (\<lambda>b. fst (row_decode tr s e (take (nat (lengths ! b)) (emissions unary b)))) [0..<?B]"
    using ltb per_row by (intro nth_equalityI) simp_all
  have scores: "map fst (map torch_max (map (\<lambda>a. map2 (+) a (tr ! e)) A))
      = map (\<lambda>b. snd (row_decode tr s e (take (nat (lengths ! b)) (emissions unary b)))) [0..<?B]"
    using lA per_row by (intro nth_equalityI) simp_all
  show ?thesis unfolding res paths scores ..
qed

subsection \<open>Optimality of the row decoder\<close>

lemma length_masked_fill2:
  "length m = length xs \<Longrightarrow> length (masked_fill2 xs m v) = length xs"
  by (simp add: masked_fill2_def)

lemma transitions_shape:
  assumes "wf_crf c"
  shows "length (transitions c) = nat (n_tags c)"
    and "\<forall>r \<in> set (transitions c). length r = nat (n_tags c)"
proof -
  let ?n = "length (transitions_p c)"
  have n: "nat (n_tags c) = ?n" using assms by (auto simp: wf_crf_def)
  have sq: "\<forall>r \<in> set (transitions_p c). length r = ?n" using assms by (simp add: wf_crf_def)
  show "length (transitions c) = nat (n_tags c)"
    using assms n by (auto simp: transitions_def wf_crf_def masked_fill2_def split: option.splits)
  show "\<forall>r \<in> set (transitions c). length r = nat (n_tags c)"
  proof (cases "mask c")
    case None
    then show ?thesis using sq n by (simp add: transitions_def)
  next
    case (Some m)
    then have m: "length m = ?n" "\<forall>r \<in> set m. length r = ?n"
      using assms by (simp_all add: wf_crf_def)
    show ?thesis
    proof
      fix r assume "r \<in> set (transitions c)"
      then obtain x y where "(x, y) \<in> set (zip (transitions_p c) m)" "r = masked_fill1 x y (- 10000)"
        using Some by (auto simp: transitions_def masked_fill2_def)
      then have "x \<in> set (transitions_p c)" "y \<in> set m" "r = masked_fill1 x y (- 10000)"
        by (auto dest: set_zip_leftD set_zip_rightD)
      then show "length r = nat (n_tags c)"
        using sq m(2) n by (simp add: masked_fill1_def)
    qed
  qed
qed


lemma row_decode_optimal:
  assumes tr: "length tr = n" "\<forall>r \<in> set tr. length r = n"
    and s: "s < n" and e: "e < n"
    and em: "em \<noteq> []" "\<forall>u \<in> set em. length u = n"
  shows "length (fst (row_decode tr s e em)) = length em"
    and "\<forall>y \<in> set (fst (row_decode tr s e em)). y < n"
    and "snd (row_decode tr s e em) = ext_score n tr s e em (fst (row_decode tr s e em))"
    and "\<forall>zs. length zs = length em \<and> (\<forall>z \<in> set zs. z < n) \<longrightarrow>
           ext_score n tr s e em zs \<le> snd (row_decode tr s e em)"
proof -
  let ?a0 = "init_alpha n s"
  let ?A = "vit_alpha tr em ?a0"
  let ?t = "map2 (+) ?A (tr ! e)"
  let ?m = "fst (torch_max ?t)" and ?k = "snd (torch_max ?t)"
  let ?r = "trace (vit_bps tr em ?a0) ?k"
  have la0: "length ?a0 = n" by (rule length_init_alpha)
  have lA: "length ?A = n"
    using length_vit_alpha[of ?a0 tr em] la0 tr(1) em(2) by simp
  have le: "length (tr ! e) = n" using tr e by simp
  have Ane: "?A \<noteq> []" using lA s by auto
  have k: "?k < n" "?A ! ?k + tr ! e ! ?k = ?m"
    using torch_max_map2[of ?A "tr ! e"] lA le Ane by simp_all
  have rd: "row_decode tr s e em = (tl ?r, ?m)"
    using tr(1) by (simp add: row_decode_def Let_def split_def)
  have r: "length ?r = Suc (length em)" "\<forall>y \<in> set ?r. y < n" "last ?r = ?k"
    "?a0 ! hd ?r + walk tr em (hd ?r) (tl ?r) = ?A ! ?k"
    using vit_trace[OF tr k(1) la0 em(2)] by (simp_all add: Let_def)
  have rne: "?r \<noteq> []" by (rule trace_nonempty)
  have ltl: "length (tl ?r) = length em" using r(1) by simp
  have tlne: "tl ?r \<noteq> []" using ltl em(1) by (metis length_0_conv)
  have tl_lt: "\<forall>y \<in> set (tl ?r). y < n" using r(2) rne by (auto dest: list.set_sel(2))
  have hd_lt: "hd ?r < n" using r(2) rne by simp
  have last_tl: "last (tl ?r) = ?k" using r(3) tlne by (simp add: last_tl)
  have upper: "start_score s p + path_score tr p e em zs \<le> ?m"
    if "p < n" "length zs = length em" "\<forall>z \<in> set zs. z < n" for p zs
  proof -
    have zne: "zs \<noteq> []" using that(2) em(1) by auto
    have lz: "last zs < n" using that(3) zne by simp
    have "?a0 ! p + walk tr em p zs \<le> ?A ! last (p # zs)"
      using vit_upper[OF tr that(2) that(1) that(3) la0 em(2)] .
    then have "start_score s p + walk tr em p zs \<le> ?A ! last zs"
      using zne that(1) by (simp add: init_alpha_nth)
    moreover have "?A ! last zs + tr ! e ! last zs \<le> ?m"
      using torch_max_nth_ge[of "last zs" ?t] lz lA le by simp
    ultimately show ?thesis
      using zne that(2) by (simp add: path_score_walk)
  qed
  have fin: "finite ((\<lambda>p. start_score s p + path_score tr p e em zs) ` {..<n})" for zs by simp
  have nemp: "(\<lambda>p. start_score s p + path_score tr p e em zs) ` {..<n} \<noteq> {}" for zs
    using s by auto
  have bound: "ext_score n tr s e em zs \<le> ?m" if "length zs = length em" "\<forall>z \<in> set zs. z < n" for zs
    unfolding ext_score_def using upper[OF _ that] by (subst Max_le_iff[OF fin nemp]) auto
  have ach: "start_score s (hd ?r) + path_score tr (hd ?r) e em (tl ?r) = ?m"
    using r(4) k(2) hd_lt tlne ltl last_tl by (simp add: path_score_walk init_alpha_nth)
  have "start_score s (hd ?r) + path_score tr (hd ?r) e em (tl ?r)
          \<in> (\<lambda>p. start_score s p + path_score tr p e em (tl ?r)) ` {..<n}"
    using hd_lt by blast
  then have "start_score s (hd ?r) + path_score tr (hd ?r) e em (tl ?r)
          \<le> ext_score n tr s e em (tl ?r)"
    unfolding ext_score_def by (rule Max_ge[OF fin])
  then have "?m \<le> ext_score n tr s e em (tl ?r)"
    by (simp only: ach)
  then have eq: "?m = ext_score n tr s e em (tl ?r)"
    using bound[OF ltl tl_lt] by simp
  show "length (fst (row_decode tr s e em)) = length em" using ltl by (simp add: rd)
  show "\<forall>y \<in> set (fst (row_decode tr s e em)). y < n" using tl_lt by (simp add: rd)
  show "snd (row_decode tr s e em) = ext_score n tr s e em (fst (row_decode tr s e em))"
    using eq by (simp add: rd)
  show "\<forall>zs. length zs = length em \<and> (\<forall>z \<in> set zs. z < n) \<longrightarrow>
           ext_score n tr s e em zs \<le> snd (row_decode tr s e em)"
    using bound by (simp add: rd)
qed





lemma wf_crf_indices:
  assumes "wf_crf c"
  shows "nat (start_idx c) < nat (n_tags c)" "nat (end_idx c) < nat (n_tags c)"
    "int (nat (start_idx c)) = start_idx c" "int (nat (end_idx c)) = end_idx c"
  using assms by (auto simp: wf_crf_def)

lemma decode_rows:
  assumes "wf_crf c" "wf_batch (nat (n_tags c)) (time_major c unary) lengths"
  shows "decode c unary lengths =
     Inr (map (\<lambda>b. fst (row_decode (transitions c) (nat (start_idx c)) (nat (end_idx c))
                      (take (nat (lengths ! b)) (emissions (time_major c unary) b)))) [0..<length lengths],
          map (\<lambda>b. snd (row_decode (transitions c) (nat (start_idx c)) (nat (end_idx c))
                      (take (nat (lengths ! b)) (emissions (time_major c unary) b)))) [0..<length lengths])"
proof -
  have "decode c unary lengths =
          viterbi (time_major c unary) (transitions c) lengths
             (int (nat (start_idx c))) (int (nat (end_idx c))) False"
    using wf_crf_indices(3,4)[OF assms(1)] by (simp add: decode_def time_major_def Let_def)
  then show ?thesis
    using viterbi_rows[OF transitions_shape[OF assms(1)] assms(2) wf_crf_indices(1,2)[OF assms(1)]]
    by simp
qed

lemma row_emissions:
  assumes "wf_batch n unary lengths" "b < length lengths"
  shows "length (take (nat (lengths ! b)) (emissions unary b)) = nat (lengths ! b)"
    and "take (nat (lengths ! b)) (emissions unary b) \<noteq> []"
    and "\<forall>u \<in> set (take (nat (lengths ! b)) (emissions unary b)). length u = n"
    and "0 < lengths ! b"
proof -
  have l: "1 \<le> lengths ! b" "lengths ! b \<le> int (length unary)"
    using assms by (simp_all add: wf_batch_def)
  show len: "length (take (nat (lengths ! b)) (emissions unary b)) = nat (lengths ! b)"
    using l by (simp add: emissions_def)
  show "take (nat (lengths ! b)) (emissions unary b) \<noteq> []"
    using len l by (metis length_0_conv nat_0_iff not_one_le_zero order_trans)
  show "\<forall>u \<in> set (take (nat (lengths ! b)) (emissions unary b)). length u = n"
  proof
    fix u assume "u \<in> set (take (nat (lengths ! b)) (emissions unary b))"
    then have "u \<in> set (emissions unary b)" by (rule in_set_takeD)
    then obtain v where "v \<in> set unary" "u = v ! b" by (auto simp: emissions_def)
    then show "length u = n" using assms by (simp add: wf_batch_def)
  qed
  show "0 < lengths ! b" using l by simp
qed

subsection \<open>Decoding: claims C1, C6 and C10\<close>

lemma crf_example_fields:
  "start_idx crf_example = 0" "end_idx crf_example = 1" "n_tags crf_example = 2"
  "batch_first crf_example = False"
  by (simp_all add: crf_example_def)

lemma wf_crf_example: "wf_crf crf_example"
  by (simp add: wf_crf_def crf_example_def)

lemma wf_batch_example: "wf_batch (nat (n_tags crf_example)) (time_major crf_example unary_example) [1]"
  by (simp add: wf_batch_def crf_example_def unary_example_def time_major_def)







lemma decode_row_facts:
  assumes "wf_crf c" and "wf_batch (nat (n_tags c)) (time_major c unary) lengths"
    and "b < length lengths"
  shows "length (fst (row_decode (transitions c) (nat (start_idx c)) (nat (end_idx c))
            (take (nat (lengths ! b)) (emissions (time_major c unary) b)))) = nat (lengths ! b)"
    and "\<forall>y \<in> set (fst (row_decode (transitions c) (nat (start_idx c)) (nat (end_idx c))
            (take (nat (lengths ! b)) (emissions (time_major c unary) b)))). y < nat (n_tags c)"
proof -
  note em = row_emissions[OF assms(2,3)]
  note opt = row_decode_optimal[OF transitions_shape[OF assms(1)] wf_crf_indices(1,2)[OF assms(1)] em(2,3)]
  show "length (fst (row_decode (transitions c) (nat (start_idx c)) (nat (end_idx c))
            (take (nat (lengths ! b)) (emissions (time_major c unary) b)))) = nat (lengths ! b)"
    using opt(1) em(1) by simp
  show "\<forall>y \<in> set (fst (row_decode (transitions c) (nat (start_idx c)) (nat (end_idx c))
            (take (nat (lengths ! b)) (emissions (time_major c unary) b)))). y < nat (n_tags c)"
    by (rule opt(2))
qed

text \<open>
  Claim C6.  On a valid batch the tag sequence \<open>decode\<close> returns for element \<open>b\<close> has exactly
  \<open>lengths ! b\<close> entries.
\<close>

theorem decode_path_length:
  assumes "wf_crf c" and "wf_batch (nat (n_tags c)) (time_major c unary) lengths"
  shows "\<exists>paths scores.
     decode c unary lengths = Inr (paths, scores) \<and> length paths = length lengths \<and>
     (\<forall>b<length lengths. int (length (paths ! b)) = lengths ! b)"
proof -
  let ?rd = "\<lambda>b. row_decode (transitions c) (nat (start_idx c)) (nat (end_idx c))
            (take (nat (lengths ! b)) (emissions (time_major c unary) b))"
  let ?paths = "map (\<lambda>b. fst (?rd b)) [0..<length lengths]"
  let ?scores = "map (\<lambda>b. snd (?rd b)) [0..<length lengths]"
  have dec: "decode c unary lengths = Inr (?paths, ?scores)"
    by (rule decode_rows[OF assms])
  have all: "\<forall>b<length lengths. int (length (?paths ! b)) = lengths ! b"
  proof (intro allI impI)
    fix b assume b: "b < length lengths"
    have "0 < lengths ! b" by (rule row_emissions(4)[OF assms(2) b])
    then show "int (length (?paths ! b)) = lengths ! b"
      using decode_row_facts(1)[OF assms b] b by simp
  qed
  have len: "length ?paths = length lengths" by simp
  show ?thesis
    apply (rule exI[of _ ?paths], rule exI[of _ ?scores])
    apply (intro conjI)
      apply (rule dec)
     apply (rule len)
    apply (rule all)
    done
qed

theorem decode_path_length_witness:
  "wf_crf crf_example \<and>
   wf_batch (nat (n_tags crf_example)) (time_major crf_example unary_example) [1] \<and>
   (\<exists>paths scores. decode crf_example unary_example [1] = Inr (paths, scores) \<and>
      length paths = 1 \<and> int (length (paths ! 0)) = 1)"
proof -
  from decode_path_length[OF wf_crf_example wf_batch_example]
  obtain paths scores where "decode crf_example unary_example [1] = Inr (paths, scores)"
    "length paths = length [1::int]" "\<forall>b<length [1::int]. int (length (paths ! b)) = [1] ! b"
    by blast
  then have "decode crf_example unary_example [1] = Inr (paths, scores) \<and>
      length paths = 1 \<and> int (length (paths ! 0)) = 1"
    by simp
  with wf_crf_example wf_batch_example show ?thesis by blast
qed

text \<open>
  Claim C10.  On a valid batch every tag index of every path \<open>decode\<close> returns lies in
  \<open>[0, n_tags)\<close>.
\<close>

theorem decode_tags_in_range:
  assumes "wf_crf c" and "wf_batch (nat (n_tags c)) (time_major c unary) lengths"
  shows "\<exists>paths scores.
     decode c unary lengths = Inr (paths, scores) \<and>
     (\<forall>b<length lengths. \<forall>y \<in> set (paths ! b). 0 \<le> int y \<and> int y < n_tags c)"
proof -
  let ?rd = "\<lambda>b. row_decode (transitions c) (nat (start_idx c)) (nat (end_idx c))
            (take (nat (lengths ! b)) (emissions (time_major c unary) b))"
  let ?paths = "map (\<lambda>b. fst (?rd b)) [0..<length lengths]"
  let ?scores = "map (\<lambda>b. snd (?rd b)) [0..<length lengths]"
  have dec: "decode c unary lengths = Inr (?paths, ?scores)"
    by (rule decode_rows[OF assms])
  have all: "\<forall>b<length lengths. \<forall>y \<in> set (?paths ! b). 0 \<le> int y \<and> int y < n_tags c"
  proof (intro allI impI ballI)
    fix b y assume b: "b < length lengths" and y: "y \<in> set (?paths ! b)"
    then have "y \<in> set (fst (?rd b))" by simp
    then have "y < nat (n_tags c)" using decode_row_facts(2)[OF assms b] by blast
    then show "0 \<le> int y \<and> int y < n_tags c" by simp
  qed
  show ?thesis
    apply (rule exI[of _ ?paths], rule exI[of _ ?scores])
    apply (intro conjI)
     apply (rule dec)
    apply (rule all)
    done
qed

theorem decode_tags_in_range_witness:
  "wf_crf crf_example \<and>
   wf_batch (nat (n_tags crf_example)) (time_major crf_example unary_example) [1] \<and>
   (\<exists>paths scores. decode crf_example unary_example [1] = Inr (paths, scores) \<and>
      list_all (\<lambda>y. int y < 2) (paths ! 0))"
proof -
  from decode_tags_in_range[OF wf_crf_example wf_batch_example]
  obtain paths scores where "decode crf_example unary_example [1] = Inr (paths, scores)"
    "\<forall>b<length [1::int]. \<forall>y \<in> set (paths ! b). 0 \<le> int y \<and> int y < n_tags crf_example"
    by blast
  then have "decode crf_example unary_example [1] = Inr (paths, scores) \<and>
      list_all (\<lambda>y. int y < 2) (paths ! 0)"
    by (simp add: list_all_iff crf_example_fields)
  with wf_crf_example wf_batch_example show ?thesis by blast
qed

end
